theory Spec2Isabelle
  imports Complex_Main "HOL-Library.Word"
begin

section \<open>didYouMean.js: the distance engine and the matcher\<close>

text \<open>
  The library is one closure in \<^verbatim>\<open>didYouMean-1.0.0.js\<close>: the matcher \<^verbatim>\<open>ret\<close>
  (exported as \<^verbatim>\<open>didYouMean\<close>, lines 126-163) and the private helper
  \<^verbatim>\<open>getEditDistance\<close> (lines 177-209). Both are embedded below as executable HOL
  functions. Every exception the JavaScript can throw is a value \<open>Inl e\<close> of the
  result type; every loop is a recursive function.

  What the program takes from the JavaScript engine is a parameter of the embedding,
  the record \<open>runtime\<close>: \<^verbatim>\<open>String.prototype.toLowerCase\<close>, the rounding of a product
  to a double, and the properties every plain object inherits from
  \<^verbatim>\<open>Object.prototype\<close>. The theorems hold for every runtime; the closed examples use
  the instance \<open>standard\<close>.

  The values of the embedding are those of the two documented ways to call the matcher:
  \<^item> \<^verbatim>\<open>didYouMean(str, list)\<close> with a list of primitive values (\<open>Plain\<close>): strings,
    and whatever else of \<^verbatim>\<open>undefined\<close>, \<^verbatim>\<open>null\<close>, booleans and numbers the list
    holds in their place;
  \<^item> \<^verbatim>\<open>didYouMean(str, list, key)\<close> with a non-empty string \<^verbatim>\<open>key\<close> and a list of
    records (\<open>Keyed\<close>): plain objects whose own properties hold primitive values. The
    value under the key may be a string, any other primitive, missing, or inherited.
  A string is the list of its 16-bit code units. A number is the real it denotes (no NaN,
  no infinities). The prototype of a record is \<^verbatim>\<open>Object.prototype\<close>; the prototypes
  of booleans, numbers and functions are the built-in ones, on which \<^verbatim>\<open>toLowerCase\<close>
  and \<^verbatim>\<open>charAt\<close> are not defined, nor is \<^verbatim>\<open>length\<close> for a boolean or a number.
\<close>

subsection \<open>The distance engine\<close>

text \<open>
  \<^verbatim>\<open>matrix\<close> is an array of arrays of numbers. A read of a slot that was never
  written gives \<^verbatim>\<open>undefined\<close> in JavaScript and a write beyond the end leaves holes;
  the model makes both visible as \<open>None\<close>, so that a result \<open>Some d\<close> is a distance
  computed from written slots only.
\<close>

type_synonym matrix = "nat list list"

text \<open>\<^verbatim>\<open>s.charAt(i)\<close>: the one-character string at \<open>i\<close>, the empty string out of range.\<close>

definition charAt :: "'a list \<Rightarrow> nat \<Rightarrow> 'a list" where
  "charAt s i = (if i < length s then [s ! i] else [])"

text \<open>The read \<^verbatim>\<open>matrix[i][j]\<close>.\<close>

definition cell :: "matrix \<Rightarrow> nat \<Rightarrow> nat \<Rightarrow> nat option" where
  "cell M i j = (if i < length M \<and> j < length (M ! i) then Some (M ! i ! j) else None)"

text \<open>The write \<^verbatim>\<open>matrix[i] = r\<close>: in place, or appended at the end of the array.\<close>

definition set_row :: "matrix \<Rightarrow> nat \<Rightarrow> nat list \<Rightarrow> matrix option" where
  "set_row M i r =
     (if i < length M then Some (M[i := r])
      else if i = length M then Some (M @ [r])
      else None)"

text \<open>The write \<^verbatim>\<open>matrix[i][j] = v\<close>: in place, or appended at the end of row \<open>i\<close>.\<close>

definition set_cell :: "matrix \<Rightarrow> nat \<Rightarrow> nat \<Rightarrow> nat \<Rightarrow> matrix option" where
  "set_cell M i j v =
     (if i < length M then
        (if j < length (M ! i) then Some (M[i := (M ! i)[j := v]])
         else if j = length (M ! i) then Some (M[i := M ! i @ [v]])
         else None)
      else None)"

text \<open>Lines 185-187: \<^verbatim>\<open>for(i = 0; i <= b.length; i++){ matrix[i] = [i]; }\<close>\<close>

function first_column :: "'a list \<Rightarrow> nat \<Rightarrow> matrix \<Rightarrow> matrix option" where
  "first_column b i M =
     (if i \<le> length b then
        (case set_row M i [i] of
           None \<Rightarrow> None
         | Some M' \<Rightarrow> first_column b (i + 1) M')
      else Some M)"
  by pat_completeness auto
termination
  by (relation "measure (\<lambda>(b, i, M). Suc (length b) - i)") auto

text \<open>Lines 191-193: \<^verbatim>\<open>for(j = 0; j <= a.length; j++){ matrix[0][j] = j; }\<close>\<close>

function first_row :: "'a list \<Rightarrow> nat \<Rightarrow> matrix \<Rightarrow> matrix option" where
  "first_row a j M =
     (if j \<le> length a then
        (case set_cell M 0 j j of
           None \<Rightarrow> None
         | Some M' \<Rightarrow> first_row a (j + 1) M')
      else Some M)"
  by pat_completeness auto
termination
  by (relation "measure (\<lambda>(a, j, M). Suc (length a) - j)") auto

text \<open>
  Lines 198-204, the body of the inner loop: the diagonal neighbour when the characters
  agree, otherwise one more than the least of the diagonal (substitution), the left
  (insertion) and the upper (deletion) neighbour.
\<close>

definition fill_cell :: "'a list \<Rightarrow> 'a list \<Rightarrow> nat \<Rightarrow> nat \<Rightarrow> matrix \<Rightarrow> matrix option" where
  "fill_cell a b i j M =
     (if charAt b (i - 1) = charAt a (j - 1) then
        (case cell M (i - 1) (j - 1) of
           None \<Rightarrow> None
         | Some d \<Rightarrow> set_cell M i j d)
      else
        (case (cell M (i - 1) (j - 1), cell M i (j - 1), cell M (i - 1) j) of
           (Some d, Some l, Some u) \<Rightarrow> set_cell M i j (min (d + 1) (min (l + 1) (u + 1)))
         | _ \<Rightarrow> None))"

text \<open>Line 197: \<^verbatim>\<open>for(j = 1; j <= a.length; j++)\<close>\<close>

function fill_row :: "'a list \<Rightarrow> 'a list \<Rightarrow> nat \<Rightarrow> nat \<Rightarrow> matrix \<Rightarrow> matrix option" where
  "fill_row a b i j M =
     (if j \<le> length a then
        (case fill_cell a b i j M of
           None \<Rightarrow> None
         | Some M' \<Rightarrow> fill_row a b i (j + 1) M')
      else Some M)"
  by pat_completeness auto
termination
  by (relation "measure (\<lambda>(a, b, i, j, M). Suc (length a) - j)") auto

text \<open>Line 196: \<^verbatim>\<open>for(i = 1; i <= b.length; i++)\<close>\<close>

function fill_rows :: "'a list \<Rightarrow> 'a list \<Rightarrow> nat \<Rightarrow> matrix \<Rightarrow> matrix option" where
  "fill_rows a b i M =
     (if i \<le> length b then
        (case fill_row a b i 1 M of
           None \<Rightarrow> None
         | Some M' \<Rightarrow> fill_rows a b (i + 1) M')
      else Some M)"
  by pat_completeness auto
termination
  by (relation "measure (\<lambda>(a, b, i, M). Suc (length b) - i)") auto

declare first_column.simps [simp del] first_row.simps [simp del]
  fill_row.simps [simp del] fill_rows.simps [simp del]

text \<open>Lines 181-206: the matrix after the three loops, starting from \<^verbatim>\<open>var matrix = []\<close>.\<close>

definition distance_table :: "'a list \<Rightarrow> 'a list \<Rightarrow> matrix option" where
  "distance_table a b =
     (case first_column b 0 [] of
        None \<Rightarrow> None
      | Some M1 \<Rightarrow>
          (case first_row a 0 M1 of
             None \<Rightarrow> None
           | Some M2 \<Rightarrow> fill_rows a b 1 M2))"

text \<open>
  Lines 177-209: the two early returns for an empty argument, then the table and
  \<^verbatim>\<open>return matrix[b.length][a.length]\<close>.
\<close>

definition getEditDistance :: "'a list \<Rightarrow> 'a list \<Rightarrow> nat option" where
  "getEditDistance a b =
     (if length a = 0 then Some (length b)
      else if length b = 0 then Some (length a)
      else
        (case distance_table a b of
           None \<Rightarrow> None
         | Some M \<Rightarrow> cell M (length b) (length a)))"

subsection \<open>JavaScript values\<close>

text \<open>
  A string is a list of UTF-16 code units; \<open>js\<close> writes one from an ASCII literal.
\<close>

type_synonym jsstring = "16 word list"

definition js :: "string \<Rightarrow> jsstring" where
  "js s = map (\<lambda>c. of_nat (of_char c)) s"

datatype prim =
    PUndefined
  | PNull
  | PBool bool
  | PNum real
  | PStr jsstring

text \<open>
  What a plain object can inherit from \<^verbatim>\<open>Object.prototype\<close>: a built-in function,
  given by its name and its \<^verbatim>\<open>length\<close> (the number of its formal parameters), or,
  under \<^verbatim>\<open>__proto__\<close>, the prototype object itself. Neither has a property
  \<^verbatim>\<open>toLowerCase\<close> or \<^verbatim>\<open>charAt\<close>, and the prototype object has no \<^verbatim>\<open>length\<close>.
\<close>

datatype builtin = BuiltinFunction string nat | ObjectPrototype

text \<open>
  The values the variable \<^verbatim>\<open>candidate\<close> takes: an element of a plain list or an own
  property of a record (a primitive), or an inherited property.
\<close>

datatype candidate = Value prim | Inherited builtin

text \<open>A record is a plain object; of two bindings of a name the first counts.\<close>

type_synonym jsrecord = "(jsstring \<times> prim) list"

text \<open>The record with the single own property \<open>k\<close>, as in \<^verbatim>\<open>{ id: 'resume' }\<close>.\<close>

definition record_with :: "string \<Rightarrow> prim \<Rightarrow> jsrecord" where
  "record_with k v = [(js k, v)]"

text \<open>The values \<^verbatim>\<open>list[i]\<close> and the results of the matcher.\<close>

datatype jsval = JPrim prim | JRecord jsrecord | JBuiltin builtin

datatype error = TypeError | ReferenceError

text \<open>ToBoolean, as used by \<^verbatim>\<open>!candidate\<close> (line 145) and \<^verbatim>\<open>winner || ...\<close> (line 162).\<close>

fun truthy :: "candidate \<Rightarrow> bool" where
  "truthy (Value PUndefined) = False"
| "truthy (Value PNull) = False"
| "truthy (Value (PBool b)) = b"
| "truthy (Value (PNum x)) = (x \<noteq> 0)"
| "truthy (Value (PStr s)) = (s \<noteq> [])"
| "truthy (Inherited b) = True"

fun returnable :: "jsval \<Rightarrow> bool" where
  "returnable (JPrim p) = truthy (Value p)"
| "returnable (JRecord r) = True"
| "returnable (JBuiltin b) = True"

fun value_of :: "candidate \<Rightarrow> jsval" where
  "value_of (Value p) = JPrim p"
| "value_of (Inherited b) = JBuiltin b"

subsection \<open>The engine\<close>

text \<open>
  \<open>lower\<close> is \<^verbatim>\<open>toLowerCase\<close> on strings; it may change the length of a string.
  \<open>rnd\<close> rounds a real to the nearest double; the program applies it once, to
  \<^verbatim>\<open>threshold * str.length\<close>. \<open>inherited\<close> is the property table of
  \<^verbatim>\<open>Object.prototype\<close>, the prototype of every record.
\<close>

record runtime =
  lower :: "jsstring \<Rightarrow> jsstring"
  rnd :: "real \<Rightarrow> real"
  inherited :: "jsstring \<Rightarrow> builtin option"

text \<open>
  The property read \<^verbatim>\<open>r[k]\<close> on a record: the own property, else the inherited one,
  else \<^verbatim>\<open>undefined\<close>.
\<close>

definition get_prop :: "runtime \<Rightarrow> jsrecord \<Rightarrow> jsstring \<Rightarrow> candidate" where
  "get_prop rt r k =
     (case map_of r k of
        Some v \<Rightarrow> Value v
      | None \<Rightarrow> (case inherited rt k of Some b \<Rightarrow> Inherited b | None \<Rightarrow> Value PUndefined))"

subsection \<open>The matcher\<close>

text \<open>
  Lines 166-169: the options live on the function object; \<^verbatim>\<open>threshold\<close> is a number or
  \<^verbatim>\<open>null\<close> (\<open>None\<close>).
\<close>

record config =
  threshold :: "real option"
  caseSensitive :: bool
  nullResultValue :: jsval
  returnWinningObject :: bool

definition defaults :: config where
  "defaults = \<lparr>threshold = Some 0.4, caseSensitive = False,
     nullResultValue = JPrim PNull, returnWinningObject = False\<rparr>"

text \<open>
  The arguments \<^verbatim>\<open>list\<close> and \<^verbatim>\<open>key\<close>: a list of primitives and no key, or a list
  of records and a key, given by its first code unit and the rest since it is not empty.
\<close>

datatype haystack = Plain "prim list" | Keyed "16 word" jsstring "jsrecord list"

text \<open>The test \<^verbatim>\<open>if (key)\<close> of lines 143 and 156.\<close>

fun has_key :: "haystack \<Rightarrow> bool" where
  "has_key (Plain ps) = False"
| "has_key (Keyed k ks rs) = True"

text \<open>
  Lines 141-143, \<^verbatim>\<open>candidate = list[i]; if (key) candidate = candidate[key];\<close>: for every
  index the value of \<^verbatim>\<open>candidate\<close> and the element \<^verbatim>\<open>list[i]\<close> itself.
\<close>

fun elements :: "runtime \<Rightarrow> haystack \<Rightarrow> (candidate \<times> jsval) list" where
  "elements rt (Plain ps) = map (\<lambda>p. (Value p, JPrim p)) ps"
| "elements rt (Keyed k ks rs) = map (\<lambda>r. (get_prop rt r (k # ks), JRecord r)) rs"

text \<open>
  The variables of the loop: \<^verbatim>\<open>winner\<close> (\<open>None\<close> while it is still undefined) and
  \<^verbatim>\<open>winningVal\<close> (\<open>None\<close> for \<^verbatim>\<open>null\<close>).
\<close>

record scan =
  winner :: "jsval option"
  winningVal :: "real option"

text \<open>
  Line 147, the call \<^verbatim>\<open>candidate.toLowerCase()\<close>: the lower-cased string for a string;
  a TypeError for every other value, none of which has a method of that name.
\<close>

definition toLowerCase_of :: "runtime \<Rightarrow> candidate \<Rightarrow> error + candidate" where
  "toLowerCase_of rt candidate =
     (case candidate of
        Value (PStr c) \<Rightarrow> Inr (Value (PStr (lower rt c)))
      | _ \<Rightarrow> Inl TypeError)"

text \<open>
  Line 149, the call \<^verbatim>\<open>getEditDistance(str, candidate)\<close> with \<open>a\<close> for \<^verbatim>\<open>str\<close>.
  \<^item> For a string it is the distance engine, which always returns (lemma
    \<open>getEditDistance_lev\<close>; the branch for \<open>None\<close> is never taken).
  \<^item> For a built-in function \<^verbatim>\<open>b.length\<close> is the number \<open>n\<close>: line 178 returns it
    when \<open>a\<close> is empty, line 179 returns \<^verbatim>\<open>a.length\<close> when \<open>n\<close> is 0, and otherwise
    the rows are set up and line 198 calls \<^verbatim>\<open>b.charAt\<close>, which a function does not have:
    a TypeError.
  \<^item> For a boolean, a number and the prototype object \<^verbatim>\<open>b.length\<close> is undefined: the
    loop of line 185 builds no row and \<^verbatim>\<open>matrix[0][j] = j\<close> on line 192 throws a
    TypeError. (This is for a non-empty \<open>a\<close>, which is what the matcher passes: by line
    127 \<^verbatim>\<open>str\<close> is not empty, and these values get to line 149 only in a case-sensitive
    search, where \<^verbatim>\<open>str\<close> is unchanged.) Reading \<^verbatim>\<open>b.length\<close> of \<^verbatim>\<open>undefined\<close> or
    \<^verbatim>\<open>null\<close> throws a TypeError.
\<close>

definition distance_to :: "jsstring \<Rightarrow> candidate \<Rightarrow> error + nat" where
  "distance_to a candidate =
     (case candidate of
        Value (PStr b) \<Rightarrow>
          (case getEditDistance a b of None \<Rightarrow> Inl TypeError | Some d \<Rightarrow> Inr d)
      | Inherited (BuiltinFunction name n) \<Rightarrow>
          if length a = 0 then Inr n
          else if n = 0 then Inr (length a)
          else Inl TypeError
      | _ \<Rightarrow> Inl TypeError)"

text \<open>
  Lines 145-158, one iteration for the pair of \<^verbatim>\<open>candidate\<close> and \<^verbatim>\<open>list[i]\<close>; \<open>keyed\<close>
  says whether \<^verbatim>\<open>key\<close> is given.
\<close>

definition examine ::
  "runtime \<Rightarrow> config \<Rightarrow> jsstring \<Rightarrow> bool \<Rightarrow> candidate \<times> jsval \<Rightarrow> scan \<Rightarrow> error + scan" where
  "examine rt cfg str keyed element st =
     (let candidate = fst element; item = snd element
      in if \<not> truthy candidate then Inr st
         else
           (case (if caseSensitive cfg then Inr candidate else toLowerCase_of rt candidate) of
              Inl e \<Rightarrow> Inl e
            | Inr candidate' \<Rightarrow>
                (case distance_to str candidate' of
                   Inl e \<Rightarrow> Inl e
                 | Inr val \<Rightarrow>
                     if winningVal st = None \<or> real val < the (winningVal st)
                     then Inr \<lparr>winner =
                                Some (if keyed \<and> returnWinningObject cfg
                                      then item else value_of candidate'),
                              winningVal = Some (real val)\<rparr>
                     else Inr st)))"

text \<open>Line 139: \<^verbatim>\<open>for (i = 0; i < len; i++)\<close> over the elements of \<^verbatim>\<open>list\<close>.\<close>

fun scan_list ::
  "runtime \<Rightarrow> config \<Rightarrow> jsstring \<Rightarrow> bool \<Rightarrow> (candidate \<times> jsval) list \<Rightarrow> scan
     \<Rightarrow> error + scan" where
  "scan_list rt cfg str keyed [] st = Inr st"
| "scan_list rt cfg str keyed (element # rest) st =
     (case examine rt cfg str keyed element st of
        Inl e \<Rightarrow> Inl e
      | Inr st' \<Rightarrow> scan_list rt cfg str keyed rest st')"

text \<open>
  Lines 126-163. \<open>str\<close> is \<open>None\<close> when the argument is absent. The last line reads
  \<^verbatim>\<open>return winner || argument.callee.nullResultValue;\<close>: with a truthy winner the
  right operand is not evaluated; otherwise the identifier \<^verbatim>\<open>argument\<close>, which is
  declared nowhere, is looked up and the lookup throws a ReferenceError.
\<close>

definition didYouMean ::
  "runtime \<Rightarrow> config \<Rightarrow> jsstring option \<Rightarrow> haystack \<Rightarrow> error + jsval" where
  "didYouMean rt cfg str list =
     (case str of
        None \<Rightarrow> Inr (JPrim (PBool False))
      | Some s \<Rightarrow>
          if s = [] then Inr (JPrim (PBool False))
          else
            (let s' = (if caseSensitive cfg then s else lower rt s);
                 st0 = \<lparr>winner = None,
                        winningVal = (case threshold cfg of
                                        None \<Rightarrow> None
                                      | Some t \<Rightarrow> Some (rnd rt (t * real (length s'))))\<rparr>
             in case scan_list rt cfg s' (has_key list) (elements rt list) st0 of
                  Inl e \<Rightarrow> Inl e
                | Inr st \<Rightarrow>
                    (case winner st of
                       None \<Rightarrow> Inl ReferenceError
                     | Some w \<Rightarrow> if returnable w then Inr w else Inl ReferenceError)))"

subsection \<open>An engine for the examples\<close>

text \<open>
  \<open>lower_basic\<close> is \<^verbatim>\<open>toLowerCase\<close> on every string made of Basic Latin code units
  (U+0000 to U+007F) and of U+0130, the capital I with a dot above, whose lower case is
  the two code units U+0069 U+0307. The examples hold no other code unit.
\<close>

definition lower_unit :: "16 word \<Rightarrow> jsstring" where
  "lower_unit u =
     (if 0x41 \<le> u \<and> u \<le> 0x5A then [u + 0x20]
      else if u = 0x130 then [0x69, 0x307]
      else [u])"

definition lower_basic :: "jsstring \<Rightarrow> jsstring" where
  "lower_basic s = concat (map lower_unit s)"

text \<open>
  The properties of \<^verbatim>\<open>Object.prototype\<close> as the language defines them: eleven functions
  with their lengths, and the accessor \<^verbatim>\<open>__proto__\<close>, which on a record gives the
  prototype object.
\<close>

definition object_prototype :: "jsstring \<Rightarrow> builtin option" where
  "object_prototype k =
     map_of
       [(js ''constructor'', BuiltinFunction ''Object'' 1),
        (js ''__defineGetter__'', BuiltinFunction ''__defineGetter__'' 2),
        (js ''__defineSetter__'', BuiltinFunction ''__defineSetter__'' 2),
        (js ''hasOwnProperty'', BuiltinFunction ''hasOwnProperty'' 1),
        (js ''__lookupGetter__'', BuiltinFunction ''__lookupGetter__'' 1),
        (js ''__lookupSetter__'', BuiltinFunction ''__lookupSetter__'' 1),
        (js ''isPrototypeOf'', BuiltinFunction ''isPrototypeOf'' 1),
        (js ''propertyIsEnumerable'', BuiltinFunction ''propertyIsEnumerable'' 1),
        (js ''toString'', BuiltinFunction ''toString'' 0),
        (js ''valueOf'', BuiltinFunction ''valueOf'' 0),
        (js ''__proto__'', ObjectPrototype),
        (js ''toLocaleString'', BuiltinFunction ''toLocaleString'' 0)] k"

text \<open>
  The products \<^verbatim>\<open>threshold * str.length\<close> of the examples lie, before and after
  rounding, on the same side of every integer, so rounding is left out of \<open>standard\<close>.
\<close>

definition standard :: runtime where
  "standard = \<lparr>lower = lower_basic, rnd = (\<lambda>x. x), inherited = object_prototype\<rparr>"

subsection \<open>The reference notion of edit distance\<close>

text \<open>
  One edit is the insertion or the deletion of a single character, or the substitution
  of a single character by a different one, at any position. The Levenshtein distance of
  \<open>a\<close> and \<open>b\<close> is the least number of edits that lead from \<open>a\<close> to \<open>b\<close>.
\<close>

inductive edit1 :: "'a list \<Rightarrow> 'a list \<Rightarrow> bool" where
  insertion: "edit1 (u @ v) (u @ c # v)"
| deletion: "edit1 (u @ c # v) (u @ v)"
| substitution: "c \<noteq> d \<Longrightarrow> edit1 (u @ c # v) (u @ d # v)"

definition levenshtein :: "'a list \<Rightarrow> 'a list \<Rightarrow> nat" where
  "levenshtein a b = (LEAST n. (edit1 ^^ n) a b)"

text \<open>
  The recurrence of the table, read from the front of the two lists; the proofs relate
  the loops to it, and it to \<open>levenshtein\<close>.
\<close>

fun lev :: "'a list \<Rightarrow> 'a list \<Rightarrow> nat" where
  "lev [] ys = length ys"
| "lev xs [] = length xs"
| "lev (x # xs) (y # ys) =
     (if x = y then lev xs ys
      else min (lev xs ys + 1) (min (lev (x # xs) ys + 1) (lev xs (y # ys) + 1)))"

text \<open>\<open>z\<close> is at most one edit further than \<open>y\<close> from every list.\<close>

definition near :: "'a list \<Rightarrow> 'a list \<Rightarrow> bool" where
  "near y z = (\<forall>x. lev x z \<le> lev x y + 1)"

text \<open>
  The intended content of \<^verbatim>\<open>matrix[i][j]\<close>, and the shape of the matrix while row
  \<open>i\<close> is filled up to column \<open>j\<close>.
\<close>

definition tbl :: "'a list \<Rightarrow> 'a list \<Rightarrow> nat \<Rightarrow> nat \<Rightarrow> nat" where
  "tbl a b i j = lev (rev (take i b)) (rev (take j a))"

definition row_full :: "'a list \<Rightarrow> 'a list \<Rightarrow> matrix \<Rightarrow> nat \<Rightarrow> bool" where
  "row_full a b M k =
     (length (M ! k) = Suc (length a) \<and> (\<forall>l \<le> length a. M ! k ! l = tbl a b k l))"

definition rows_filled :: "'a list \<Rightarrow> 'a list \<Rightarrow> nat \<Rightarrow> matrix \<Rightarrow> bool" where
  "rows_filled a b i M =
     (length M = Suc (length b) \<and> (\<forall>k < i. row_full a b M k)
      \<and> (\<forall>k. i \<le> k \<and> k \<le> length b \<longrightarrow> M ! k = [k]))"

definition row_partial :: "'a list \<Rightarrow> 'a list \<Rightarrow> nat \<Rightarrow> nat \<Rightarrow> matrix \<Rightarrow> bool" where
  "row_partial a b i j M =
     (length M = Suc (length b) \<and> (\<forall>k < i. row_full a b M k)
      \<and> length (M ! i) = j \<and> (\<forall>l < j. M ! i ! l = tbl a b i l)
      \<and> (\<forall>k. i < k \<and> k \<le> length b \<longrightarrow> M ! k = [k]))"

subsection \<open>Vocabulary for the matcher's properties\<close>

text \<open>The case folding applied to the input and to every candidate (lines 130 and 147).\<close>

definition folded :: "runtime \<Rightarrow> config \<Rightarrow> jsstring \<Rightarrow> jsstring" where
  "folded rt cfg s = (if caseSensitive cfg then s else lower rt s)"

text \<open>
  Lines 145-149 for one value of \<^verbatim>\<open>candidate\<close>: an exception, \<open>None\<close> for
  \<^verbatim>\<open>continue\<close>, or the candidate as line 149 has it together with \<^verbatim>\<open>val\<close>.
\<close>

definition appraise ::
  "runtime \<Rightarrow> config \<Rightarrow> jsstring \<Rightarrow> candidate \<Rightarrow> error + (candidate \<times> nat) option" where
  "appraise rt cfg str candidate =
     (if \<not> truthy candidate then Inr None
      else
        (case (if caseSensitive cfg then Inr candidate else toLowerCase_of rt candidate) of
           Inl e \<Rightarrow> Inl e
         | Inr candidate' \<Rightarrow>
             (case distance_to str candidate' of
                Inl e \<Rightarrow> Inl e
              | Inr val \<Rightarrow> Inr (Some (candidate', val)))))"


definition comparand :: "runtime \<Rightarrow> config \<Rightarrow> candidate \<Rightarrow> jsstring option" where
  "comparand rt cfg candidate =
     (case candidate of
        Value (PStr c) \<Rightarrow> if c = [] then None else Some (folded rt cfg c)
      | _ \<Rightarrow> None)"

text \<open>
  The value stored in \<^verbatim>\<open>winner\<close> when an element wins with the candidate \<open>c\<close> of line
  149 (lines 156-157).
\<close>

definition stored :: "config \<Rightarrow> bool \<Rightarrow> candidate \<times> jsval \<Rightarrow> candidate \<Rightarrow> jsval" where
  "stored cfg keyed element c =
     (if keyed \<and> returnWinningObject cfg then snd element else value_of c)"

text \<open>The test of line 153 against the current \<^verbatim>\<open>winningVal\<close>.\<close>

definition beats :: "scan \<Rightarrow> nat \<Rightarrow> bool" where
  "beats st d = (winningVal st = None \<or> real d < the (winningVal st))"

text \<open>The state before the first iteration (lines 134-136), for the folded input \<open>s\<close>.\<close>

definition start :: "runtime \<Rightarrow> config \<Rightarrow> jsstring \<Rightarrow> scan" where
  "start rt cfg s =
     \<lparr>winner = None,
      winningVal = (case threshold cfg of
                      None \<Rightarrow> None
                    | Some t \<Rightarrow> Some (rnd rt (t * real (length s))))\<rparr>"

text \<open>
  A distance qualifies when it is below the bound computed from the threshold and the
  folded input \<open>s\<close>; with the threshold \<^verbatim>\<open>null\<close> every distance does.
\<close>

definition qualifies :: "runtime \<Rightarrow> config \<Rightarrow> jsstring \<Rightarrow> nat \<Rightarrow> bool" where
  "qualifies rt cfg s d =
     (case threshold cfg of
        None \<Rightarrow> True
      | Some t \<Rightarrow> real d < rnd rt (t * real (length s)))"

text \<open>
  The length of the longest string of the call, as the strings are compared. No string of
  the language has more than \<open>2 ^ 53\<close> code units.
\<close>

definition longest :: "runtime \<Rightarrow> config \<Rightarrow> jsstring \<Rightarrow> haystack \<Rightarrow> nat" where
  "longest rt cfg str list =
     Max (set (length (folded rt cfg str)
               # map (\<lambda>e. case comparand rt cfg (fst e) of None \<Rightarrow> 0 | Some c \<Rightarrow> length c)
                     (elements rt list)))"

text \<open>
  No element of \<open>es\<close> beats the state \<open>st\<close>; and: element \<open>i\<close>, with the candidate \<open>c\<close>
  and the distance \<open>d\<close> of line 149, is the first one at the least distance.
\<close>

definition unbeaten ::
  "runtime \<Rightarrow> config \<Rightarrow> jsstring \<Rightarrow> (candidate \<times> jsval) list \<Rightarrow> scan \<Rightarrow> bool" where
  "unbeaten rt cfg str es st =
     (\<forall>k < length es. \<forall>c d. appraise rt cfg str (fst (es ! k)) = Inr (Some (c, d))
         \<longrightarrow> \<not> beats st d)"

definition best_at ::
  "runtime \<Rightarrow> config \<Rightarrow> jsstring \<Rightarrow> (candidate \<times> jsval) list \<Rightarrow> nat \<Rightarrow> candidate \<Rightarrow> nat
     \<Rightarrow> bool" where
  "best_at rt cfg str es i c d =
     (i < length es \<and> appraise rt cfg str (fst (es ! i)) = Inr (Some (c, d))
      \<and> (\<forall>k < length es. \<forall>c' d'. appraise rt cfg str (fst (es ! k)) = Inr (Some (c', d'))
            \<longrightarrow> d \<le> d')
      \<and> (\<forall>k < i. \<forall>c' d'. appraise rt cfg str (fst (es ! k)) = Inr (Some (c', d'))
            \<longrightarrow> d < d'))"

section \<open>Lemmas\<close>

subsection \<open>The recurrence is the Levenshtein distance\<close>

lemma lev_Nil2 [simp]: "lev xs [] = length xs"
  by (cases xs) simp_all

lemma lev_refl [simp]: "lev xs xs = 0"
  by (induction xs) simp_all

lemma lev_sym: "lev xs ys = lev ys xs"
  by (induction xs ys rule: lev.induct) (simp_all add: min.commute)

lemma lev_Cons_left:
  "lev (a # x) y \<le> lev x y + 1 \<and> lev x y \<le> lev (a # x) y + 1"
proof (induction "length x + length y" arbitrary: x y a rule: less_induct)
  case less
  show ?case
  proof (cases y)
    case Nil
    then show ?thesis by simp
  next
    case (Cons b y')
    have swap: "lev (b # y') x \<le> lev y' x + 1 \<and> lev y' x \<le> lev (b # y') x + 1"
      using less [of y' x b] Cons by simp
    have shorter: "lev (a # x) y' \<le> lev x y' + 1 \<and> lev x y' \<le> lev (a # x) y' + 1"
      using less [of x y' a] Cons by simp
    have up: "lev x (b # y') \<le> lev x y' + 1" and down: "lev x y' \<le> lev x (b # y') + 1"
      using swap by (simp_all add: lev_sym [of x])
    show ?thesis
    proof (cases "a = b")
      case True
      then show ?thesis using Cons up down by simp
    next
      case False
      then show ?thesis using Cons up shorter by (simp add: min_def)
    qed
  qed
qed

lemma lev_Cons_right:
  "lev x (b # y) \<le> lev x y + 1 \<and> lev x y \<le> lev x (b # y) + 1"
  using lev_Cons_left [of b y x] by (simp add: lev_sym [of x])

lemma near_ins: "near v (c # v)"
  using lev_Cons_right [of _ c v] by (simp add: near_def)

lemma near_del: "near (c # v) v"
  using lev_Cons_right [of _ c v] by (simp add: near_def)

lemma near_sub: "near (c # v) (d # v)"
  unfolding near_def
proof
  fix x show "lev x (d # v) \<le> lev x (c # v) + 1"
  proof (induction x)
    case Nil
    then show ?case by simp
  next
    case (Cons a x)
    have 1: "lev x v \<le> lev (a # x) v + 1" using lev_Cons_left [of a x v] by simp
    have 2: "lev x v \<le> lev x (c # v) + 1" using lev_Cons_right [of x c v] by simp
    show ?case using Cons 1 2 by auto
  qed
qed

lemma near_Cons: assumes "near y z" shows "near (h # y) (h # z)"
  unfolding near_def
proof
  fix x show "lev x (h # z) \<le> lev x (h # y) + 1"
  proof (induction x)
    case Nil
    then show ?case using assms [unfolded near_def, rule_format, of "[]"] by simp
  next
    case (Cons a x)
    have 1: "lev x z \<le> lev x y + 1" using assms by (simp add: near_def)
    have 2: "lev (a # x) z \<le> lev (a # x) y + 1" using assms by (simp add: near_def)
    show ?case using Cons 1 2 by auto
  qed
qed

lemma near_append: "near y z \<Longrightarrow> near (u @ y) (u @ z)"
  by (induction u) (simp_all add: near_Cons)

lemma edit1_near: "edit1 y z \<Longrightarrow> near y z"
  by (induction rule: edit1.induct) (simp_all add: near_append near_ins near_del near_sub)

lemma lev_path_step: "(edit1 ^^ n) y z \<Longrightarrow> lev x z \<le> lev x y + n"
proof (induction n arbitrary: z)
  case 0
  then show ?case by simp
next
  case (Suc n)
  then obtain w where w: "(edit1 ^^ n) y w" "edit1 w z" by auto
  have "lev x z \<le> lev x w + 1" using edit1_near [OF w(2)] by (simp add: near_def)
  then show ?case using Suc.IH [OF w(1)] by simp
qed

lemma lev_le_path: "(edit1 ^^ n) x y \<Longrightarrow> lev x y \<le> n"
  using lev_path_step [of n x y x] by simp

lemma edit1_Cons: "edit1 x y \<Longrightarrow> edit1 (h # x) (h # y)"
proof (induction rule: edit1.induct)
  case (insertion u v c)
  show ?case using edit1.insertion [of "h # u" v c] by simp
next
  case (deletion u c v)
  show ?case using edit1.deletion [of "h # u" c v] by simp
next
  case (substitution c d u v)
  show ?case using edit1.substitution [OF substitution, of "h # u" v] by simp
qed

lemma path_Cons: "(edit1 ^^ n) x y \<Longrightarrow> (edit1 ^^ n) (h # x) (h # y)"
proof (induction n arbitrary: y)
  case 0
  then show ?case by simp
next
  case (Suc n)
  then obtain w where w: "(edit1 ^^ n) x w" "edit1 w y" by auto
  show ?case using Suc.IH [OF w(1)] edit1_Cons [OF w(2)] by auto
qed

lemma ins_head: "edit1 v (c # v)"
  using edit1.insertion [of "[]" v c] by simp

lemma del_head: "edit1 (c # v) v"
  using edit1.deletion [of "[]" c v] by simp

lemma sub_head: "c \<noteq> d \<Longrightarrow> edit1 (c # v) (d # v)"
  using edit1.substitution [of c d "[]" v] by simp

lemma path_from_Nil: "(edit1 ^^ length ys) [] ys"
proof (induction ys)
  case Nil
  then show ?case by simp
next
  case (Cons y ys)
  show ?case using Cons ins_head [of ys y] by auto
qed

lemma path_to_Nil: "(edit1 ^^ length xs) xs []"
proof (induction xs)
  case Nil
  then show ?case by simp
next
  case (Cons x xs)
  have "(edit1 ^^ Suc (length xs)) (x # xs) []"
    using del_head [of x xs] Cons by (rule relpowp_Suc_I2)
  then show ?case by simp
qed

lemma lev_path: "(edit1 ^^ lev x y) x y"
proof (induction x y rule: lev.induct)
  case (1 ys)
  then show ?case by (simp add: path_from_Nil)
next
  case (2 v va)
  then show ?case using path_to_Nil [of "v # va"] by simp
next
  case (3 x xs y ys)
  show ?case
  proof (cases "x = y")
    case True
    then show ?thesis using 3 by (simp add: path_Cons)
  next
    case False
    let ?d = "lev xs ys" and ?l = "lev (x # xs) ys" and ?u = "lev xs (y # ys)"
    have pd: "(edit1 ^^ Suc ?d) (x # xs) (y # ys)"
      using sub_head [OF False, of xs] path_Cons [OF "3.IH"(2) [OF False], of y]
      by (rule relpowp_Suc_I2)
    have pl: "(edit1 ^^ Suc ?l) (x # xs) (y # ys)"
      using "3.IH"(3) [OF False] ins_head [of ys y] by auto
    have pu: "(edit1 ^^ Suc ?u) (x # xs) (y # ys)"
      using del_head [of x xs] "3.IH"(4) [OF False] by (rule relpowp_Suc_I2)
    have "lev (x # xs) (y # ys) = Suc ?d \<or> lev (x # xs) (y # ys) = Suc ?l
        \<or> lev (x # xs) (y # ys) = Suc ?u"
      using False by (auto simp: min_def)
    then show ?thesis using pd pl pu by metis
  qed
qed

lemma lev_triangle: "lev x z \<le> lev x y + lev y z"
  using lev_path_step [OF lev_path] .

lemma lev_levenshtein: "lev x y = levenshtein x y"
  unfolding levenshtein_def
  by (rule Least_equality [symmetric]) (simp_all add: lev_path lev_le_path)

lemma edit1_rev: "edit1 x y \<Longrightarrow> edit1 (rev x) (rev y)"
proof (induction rule: edit1.induct)
  case (insertion u v c)
  show ?case using edit1.insertion [of "rev v" "rev u" c] by simp
next
  case (deletion u c v)
  show ?case using edit1.deletion [of "rev v" c "rev u"] by simp
next
  case (substitution c d u v)
  show ?case using edit1.substitution [OF substitution, of "rev v" "rev u"] by simp
qed

lemma path_rev: "(edit1 ^^ n) x y \<Longrightarrow> (edit1 ^^ n) (rev x) (rev y)"
proof (induction n arbitrary: y)
  case 0
  then show ?case by simp
next
  case (Suc n)
  then obtain w where w: "(edit1 ^^ n) x w" "edit1 w y" by auto
  show ?case using Suc.IH [OF w(1)] edit1_rev [OF w(2)] by auto
qed

lemma lev_rev_le: "lev (rev x) (rev y) \<le> lev x y"
  by (rule lev_le_path [OF path_rev [OF lev_path]])

lemma lev_rev: "lev (rev x) (rev y) = lev x y"
  using lev_rev_le [of x y] lev_rev_le [of "rev x" "rev y"] by simp

subsection \<open>The loops fill the table with the recurrence\<close>

lemma tbl_row0: "j \<le> length a \<Longrightarrow> tbl a b 0 j = j"
  by (simp add: tbl_def)

lemma tbl_col0: "i \<le> length b \<Longrightarrow> tbl a b i 0 = i"
  by (simp add: tbl_def)

lemma tbl_Suc:
  assumes "i < length b" "j < length a"
  shows "tbl a b (Suc i) (Suc j) =
     (if b ! i = a ! j then tbl a b i j
      else min (tbl a b i j + 1) (min (tbl a b (Suc i) j + 1) (tbl a b i (Suc j) + 1)))"
  using assms by (simp add: tbl_def take_Suc_conv_app_nth)

lemma first_column_run:
  "i \<le> Suc (length b) \<Longrightarrow> M = map (\<lambda>k. [k]) [0..<i]
   \<Longrightarrow> first_column b i M = Some (map (\<lambda>k. [k]) [0..<Suc (length b)])"
proof (induction b i M rule: first_column.induct)
  case (1 b i M)
  show ?case
  proof (cases "i \<le> length b")
    case True
    have s: "set_row M i [i] = Some (map (\<lambda>k. [k]) [0..<Suc i])"
      using "1.prems" by (simp add: set_row_def)
    have "first_column b (i + 1) (map (\<lambda>k. [k]) [0..<Suc i])
        = Some (map (\<lambda>k. [k]) [0..<Suc (length b)])"
      using "1.IH" [OF True s] True by simp
    then show ?thesis using True s by (subst first_column.simps) simp
  next
    case False
    then have "i = Suc (length b)" using "1.prems" by simp
    then show ?thesis using "1.prems" by (subst first_column.simps) simp
  qed
qed

lemma first_row_run:
  "0 < j \<Longrightarrow> j \<le> Suc (length a) \<Longrightarrow> M = [0..<j] # rest
   \<Longrightarrow> first_row a j M = Some ([0..<Suc (length a)] # rest)"
proof (induction a j M rule: first_row.induct)
  case (1 a j M)
  show ?case
  proof (cases "j \<le> length a")
    case True
    have s: "set_cell M 0 j j = Some ([0..<Suc j] # rest)"
      using "1.prems" by (simp add: set_cell_def)
    have "first_row a (j + 1) ([0..<Suc j] # rest) = Some ([0..<Suc (length a)] # rest)"
      using "1.IH" [OF True s] True by simp
    then show ?thesis using True s by (subst first_row.simps) simp
  next
    case False
    then have "j = Suc (length a)" using "1.prems" by simp
    then show ?thesis using "1.prems" by (subst first_row.simps) simp
  qed
qed

lemma first_row_start:
  "first_row a 0 ([0] # rest) = Some ([0..<Suc (length a)] # rest)"
proof -
  have "set_cell ([0] # rest) 0 0 0 = Some ([0] # rest)"
    by (simp add: set_cell_def)
  then have "first_row a 0 ([0] # rest) = first_row a 1 ([0] # rest)"
    by (subst first_row.simps) simp
  also have "\<dots> = Some ([0..<Suc (length a)] # rest)"
    using first_row_run [of 1 a "[0] # rest" rest] by simp
  finally show ?thesis .
qed

lemma borders_filled:
  "rows_filled a b 1 ([0..<Suc (length a)] # map (\<lambda>k. [k]) [1..<Suc (length b)])"
proof -
  let ?M = "[0..<Suc (length a)] # map (\<lambda>k. [k]) [1..<Suc (length b)]"
  have row0: "row_full a b ?M 0"
    unfolding row_full_def
  proof (intro conjI allI impI)
    show "length (?M ! 0) = Suc (length a)" by simp
  next
    fix l assume l: "l \<le> length a"
    have "[0..<Suc (length a)] ! l = l"
      using l nth_upt [of 0 l "Suc (length a)"] by simp
    then show "?M ! 0 ! l = tbl a b 0 l" using l by (simp add: tbl_row0)
  qed
  have rest: "?M ! k = [k]" if k: "1 \<le> k" "k \<le> length b" for k
  proof -
    obtain k' where k': "k = Suc k'" using k(1) by (cases k) auto
    have "map (\<lambda>k. [k]) [1..<Suc (length b)] ! k' = [1 + k']"
      using k(2) k' nth_map_upt [of k' "Suc (length b)" 1 "\<lambda>k. [k]"] by simp
    then show ?thesis using k' by simp
  qed
  have len: "length ?M = Suc (length b)"
    by (simp del: upt_Suc)
  have "\<forall>k<1. row_full a b ?M k"
    using row0 by simp
  then show ?thesis
    unfolding rows_filled_def using rest len by blast
qed

lemma first_column_shape:
  "map (\<lambda>k. [k]) [0..<Suc n] = [0] # map (\<lambda>k. [k]) [1..<Suc n]"
  by (simp add: upt_conv_Cons del: upt_Suc)

lemma rows_filled_partial:
  "rows_filled a b i M \<Longrightarrow> i \<le> length b \<Longrightarrow> row_partial a b i 1 M"
  by (simp add: rows_filled_def row_partial_def tbl_col0)

lemma partial_rows_filled:
  assumes "row_partial a b i (Suc (length a)) M"
  shows "rows_filled a b (Suc i) M"
proof -
  have "row_full a b M i"
    using assms by (simp add: row_partial_def row_full_def less_Suc_eq_le)
  then have "\<forall>k < Suc i. row_full a b M k"
    using assms by (simp add: row_partial_def less_Suc_eq)
  then show ?thesis
    using assms by (simp add: row_partial_def rows_filled_def)
qed

lemma cell_full:
  "row_full a b M k \<Longrightarrow> k < length M \<Longrightarrow> l \<le> length a \<Longrightarrow> cell M k l = Some (tbl a b k l)"
  by (simp add: row_full_def cell_def)

lemma fill_cell_inv:
  assumes inv: "row_partial a b i j M"
    and i: "0 < i" "i \<le> length b" and j: "0 < j" "j \<le> length a"
  shows "\<exists>M'. fill_cell a b i j M = Some M' \<and> row_partial a b i (Suc j) M'"
proof -
  obtain i' j' where ij: "i = Suc i'" "j = Suc j'"
    using i(1) j(1) by (cases i; cases j) auto
  have len: "length M = Suc (length b)" and cur: "length (M ! i) = j"
    using inv by (simp_all add: row_partial_def)
  have prev: "row_full a b M i'"
    using inv ij by (simp add: row_partial_def)
  have d: "cell M (i - 1) (j - 1) = Some (tbl a b i' j')"
    using cell_full [OF prev, of j'] len i j ij by simp
  have u: "cell M (i - 1) j = Some (tbl a b i' j)"
    using cell_full [OF prev, of j] len i j ij by simp
  have l: "cell M i (j - 1) = Some (tbl a b i j')"
    using inv len i ij by (simp add: cell_def row_partial_def)
  have ch: "(charAt b (i - 1) = charAt a (j - 1)) = (b ! i' = a ! j')"
    using i j ij by (simp add: charAt_def)
  let ?M' = "M[i := M ! i @ [tbl a b i j]]"
  have put: "set_cell M i j v = Some (M[i := M ! i @ [v]])" for v
    using len cur i by (simp add: set_cell_def)
  have val: "tbl a b i j =
     (if b ! i' = a ! j' then tbl a b i' j'
      else min (tbl a b i' j' + 1) (min (tbl a b i j' + 1) (tbl a b i' j + 1)))"
    using tbl_Suc [of i' b j' a] i j ij by simp
  have run: "fill_cell a b i j M = Some ?M'"
    unfolding fill_cell_def ch d u l using put val by simp
  have older: "row_full a b ?M' k" if "k < i" for k
    using inv that by (simp add: row_partial_def row_full_def)
  have later: "?M' ! k = [k]" if "i < k" "k \<le> length b" for k
    using inv that by (simp add: row_partial_def)
  have row: "?M' ! i = M ! i @ [tbl a b i j]"
    using len i by simp
  have entries: "?M' ! i ! l = tbl a b i l" if "l < Suc j" for l
    using inv that cur unfolding row by (auto simp: row_partial_def nth_append less_Suc_eq)
  have "row_partial a b i (Suc j) ?M'"
    unfolding row_partial_def using older later entries len cur row by simp
  then show ?thesis using run by blast
qed

lemma fill_row_inv:
  "row_partial a b i j M \<Longrightarrow> 0 < i \<Longrightarrow> i \<le> length b \<Longrightarrow> 0 < j \<Longrightarrow> j \<le> Suc (length a)
   \<Longrightarrow> \<exists>M'. fill_row a b i j M = Some M' \<and> row_partial a b i (Suc (length a)) M'"
proof (induction a b i j M rule: fill_row.induct)
  case (1 a b i j M)
  show ?case
  proof (cases "j \<le> length a")
    case True
    obtain M1 where M1: "fill_cell a b i j M = Some M1" "row_partial a b i (Suc j) M1"
      using fill_cell_inv [OF "1.prems"(1-4) True] by blast
    obtain M' where M': "fill_row a b i (j + 1) M1 = Some M'"
        "row_partial a b i (Suc (length a)) M'"
      using "1.IH" [OF True M1(1)] M1(2) "1.prems" True by auto
    show ?thesis using True M1(1) M' by (subst fill_row.simps) simp
  next
    case False
    then have "j = Suc (length a)" using "1.prems" by simp
    then show ?thesis using "1.prems"(1) by (subst fill_row.simps) simp
  qed
qed

lemma fill_rows_inv:
  "rows_filled a b i M \<Longrightarrow> 0 < i \<Longrightarrow> i \<le> Suc (length b)
   \<Longrightarrow> \<exists>M'. fill_rows a b i M = Some M' \<and> rows_filled a b (Suc (length b)) M'"
proof (induction a b i M rule: fill_rows.induct)
  case (1 a b i M)
  show ?case
  proof (cases "i \<le> length b")
    case True
    obtain M1 where M1: "fill_row a b i 1 M = Some M1"
        "row_partial a b i (Suc (length a)) M1"
      using fill_row_inv [OF rows_filled_partial [OF "1.prems"(1) True] "1.prems"(2) True]
      by auto
    obtain M' where M': "fill_rows a b (i + 1) M1 = Some M'"
        "rows_filled a b (Suc (length b)) M'"
      using "1.IH" [OF True M1(1)] partial_rows_filled [OF M1(2)] True by auto
    show ?thesis using True M1(1) M' by (subst fill_rows.simps) simp
  next
    case False
    then have "i = Suc (length b)" using "1.prems" by simp
    then show ?thesis using "1.prems"(1) by (subst fill_rows.simps) simp
  qed
qed

lemma distance_table_filled:
  "\<exists>M. distance_table a b = Some M \<and> rows_filled a b (Suc (length b)) M"
proof -
  let ?M1 = "map (\<lambda>k. [k]) [0..<Suc (length b)]"
  let ?M2 = "[0..<Suc (length a)] # map (\<lambda>k. [k]) [1..<Suc (length b)]"
  have c1: "first_column b 0 [] = Some ?M1"
    using first_column_run [of 0 b "[]"] by simp
  have c2: "first_row a 0 ?M1 = Some ?M2"
    unfolding first_column_shape by (rule first_row_start)
  obtain M3 where M3: "fill_rows a b 1 ?M2 = Some M3" "rows_filled a b (Suc (length b)) M3"
    using fill_rows_inv [OF borders_filled, of b a] by auto
  have "distance_table a b = Some M3"
    unfolding distance_table_def c1 using c2 M3(1) by simp
  then show ?thesis using M3(2) by blast
qed

lemma tbl_lev: "tbl a b i j = lev (take i b) (take j a)"
  by (simp add: tbl_def lev_rev)

lemma rows_filled_table:
  assumes "rows_filled a b (Suc (length b)) M"
  shows "M = map (\<lambda>i. map (\<lambda>j. lev (take i b) (take j a)) [0..<Suc (length a)])
                 [0..<Suc (length b)]"
proof (rule nth_equalityI)
  show "length M = length (map (\<lambda>i. map (\<lambda>j. lev (take i b) (take j a)) [0..<Suc (length a)])
                 [0..<Suc (length b)])"
    using assms by (simp add: rows_filled_def del: upt_Suc)
next
  fix i assume "i < length M"
  then have i: "i < Suc (length b)" using assms by (simp add: rows_filled_def)
  then have full: "row_full a b M i" using assms by (simp add: rows_filled_def)
  have "M ! i = map (\<lambda>j. lev (take i b) (take j a)) [0..<Suc (length a)]"
  proof (rule nth_equalityI)
    show "length (M ! i) = length (map (\<lambda>j. lev (take i b) (take j a)) [0..<Suc (length a)])"
      using full by (simp add: row_full_def del: upt_Suc)
  next
    fix j assume "j < length (M ! i)"
    then have j: "j < Suc (length a)" using full by (simp add: row_full_def)
    then have "M ! i ! j = tbl a b i j" using full by (simp add: row_full_def)
    moreover have "map (\<lambda>j. lev (take i b) (take j a)) [0..<Suc (length a)] ! j
        = lev (take i b) (take j a)"
      using j nth_map_upt [of j "Suc (length a)" 0 "\<lambda>j. lev (take i b) (take j a)"] by simp
    ultimately show "M ! i ! j
        = map (\<lambda>j. lev (take i b) (take j a)) [0..<Suc (length a)] ! j"
      by (simp add: tbl_lev)
  qed
  moreover have "map (\<lambda>i. map (\<lambda>j. lev (take i b) (take j a)) [0..<Suc (length a)])
                 [0..<Suc (length b)] ! i
      = map (\<lambda>j. lev (take i b) (take j a)) [0..<Suc (length a)]"
    using i nth_map_upt [of i "Suc (length b)" 0
        "\<lambda>i. map (\<lambda>j. lev (take i b) (take j a)) [0..<Suc (length a)]"] by simp
  ultimately show "M ! i = map (\<lambda>i. map (\<lambda>j. lev (take i b) (take j a)) [0..<Suc (length a)])
                 [0..<Suc (length b)] ! i"
    by simp
qed

lemma distance_table_lev:
  "distance_table a b =
     Some (map (\<lambda>i. map (\<lambda>j. lev (take i b) (take j a)) [0..<Suc (length a)])
               [0..<Suc (length b)])"
  using distance_table_filled [of a b] rows_filled_table by blast

lemma getEditDistance_lev: "getEditDistance a b = Some (lev a b)"
proof (cases "a = [] \<or> b = []")
  case True
  then show ?thesis by (auto simp: getEditDistance_def)
next
  case False
  obtain M where M: "distance_table a b = Some M" "rows_filled a b (Suc (length b)) M"
    using distance_table_filled by blast
  have "cell M (length b) (length a) = Some (tbl a b (length b) (length a))"
    using M(2) by (intro cell_full) (simp_all add: rows_filled_def)
  also have "tbl a b (length b) (length a) = lev a b"
    by (simp add: tbl_def lev_rev lev_sym [of b a])
  finally show ?thesis using False M(1) by (simp add: getEditDistance_def)
qed

subsection \<open>One pass over the candidates\<close>

lemma lev_le_max: "lev x y \<le> max (length x) (length y)"
  by (induction x y rule: lev.induct) auto

lemma examine_appraise:
  "examine rt cfg str keyed element st =
     (case appraise rt cfg str (fst element) of
        Inl e \<Rightarrow> Inl e
      | Inr None \<Rightarrow> Inr st
      | Inr (Some (c, d)) \<Rightarrow>
          if beats st d
          then Inr \<lparr>winner = Some (stored cfg keyed element c), winningVal = Some (real d)\<rparr>
          else Inr st)"
proof (cases "truthy (fst element)")
  case False
  then show ?thesis by (simp add: examine_def appraise_def Let_def)
next
  case True
  show ?thesis
  proof (cases "if caseSensitive cfg then Inr (fst element)
      else toLowerCase_of rt (fst element)")
    case (Inl e)
    then show ?thesis using True by (simp add: examine_def appraise_def Let_def)
  next
    case (Inr c')
    show ?thesis
    proof (cases "distance_to str c'")
      case (Inl e)
      then show ?thesis using True Inr by (simp add: examine_def appraise_def Let_def)
    next
      case r: (Inr val)
      then show ?thesis
        using True Inr
        by (simp add: examine_def appraise_def stored_def beats_def Let_def)
    qed
  qed
qed

lemma toLowerCase_of_error: "toLowerCase_of rt c = Inl e \<Longrightarrow> e = TypeError"
  by (auto simp: toLowerCase_of_def split: candidate.splits prim.splits)

lemma distance_to_error: "distance_to a c = Inl e \<Longrightarrow> e = TypeError"
  by (auto simp: distance_to_def
      split: candidate.splits prim.splits builtin.splits option.splits if_splits)

lemma appraise_error: "appraise rt cfg str c = Inl e \<Longrightarrow> e = TypeError"
  by (auto simp: appraise_def dest: toLowerCase_of_error distance_to_error
      split: if_splits sum.splits)

lemma appraise_string:
  assumes "comparand rt cfg candidate = Some c"
  shows "appraise rt cfg str candidate = Inr (Some (Value (PStr c), lev str c))"
proof -
  obtain s where s: "candidate = Value (PStr s)" "s \<noteq> []" "c = folded rt cfg s"
    using assms
    by (auto simp: comparand_def split: candidate.splits prim.splits if_splits)
  show ?thesis
    using s(2)
    by (simp add: s(1,3) appraise_def toLowerCase_of_def distance_to_def folded_def
        getEditDistance_lev)
qed



lemma appraise_insensitive:
  assumes "\<not> caseSensitive cfg" "appraise rt cfg str candidate = Inr (Some (c, d))"
  shows "\<exists>s. candidate = Value (PStr s) \<and> c = Value (PStr (lower rt s))"
  using assms
  by (auto simp: appraise_def toLowerCase_of_def
      split: if_splits sum.splits candidate.splits prim.splits)

lemma appraise_distance:
  assumes "appraise rt cfg str candidate = Inr (Some (c, d))"
  shows "(\<exists>c'. comparand rt cfg candidate = Some c' \<and> d = lev str c')
       \<or> (caseSensitive cfg \<and> (str \<noteq> [] \<longrightarrow> d = length str))"
proof (cases "\<exists>s. candidate = Value (PStr s)")
  case True
  then obtain s where s: "candidate = Value (PStr s)" by blast
  have "s \<noteq> []" using assms s by (auto simp: appraise_def split: if_splits)
  then have "comparand rt cfg candidate = Some (folded rt cfg s)"
    by (simp add: s comparand_def)
  then show ?thesis using appraise_string [of rt cfg candidate "folded rt cfg s" str] assms
    by simp
next
  case False
  then have cs: "caseSensitive cfg"
    using assms
    by (auto simp: appraise_def toLowerCase_of_def
        split: if_splits sum.splits candidate.splits prim.splits)
  then have "distance_to str candidate = Inr d"
    using assms by (auto simp: appraise_def split: if_splits sum.splits)
  then have "str \<noteq> [] \<longrightarrow> d = length str"
    using False
    by (auto simp: distance_to_def
        split: candidate.splits prim.splits builtin.splits if_splits)
  then show ?thesis using cs by simp
qed

lemma scan_list_append:
  "scan_list rt cfg str keyed (xs @ ys) st =
     (case scan_list rt cfg str keyed xs st of
        Inl e \<Rightarrow> Inl e
      | Inr st' \<Rightarrow> scan_list rt cfg str keyed ys st')"
  by (induction xs arbitrary: st) (simp_all split: sum.splits)

lemma examine_error: "examine rt cfg str keyed element st = Inl e \<Longrightarrow> e = TypeError"
  by (auto simp: examine_appraise dest: appraise_error
      split: sum.splits option.splits prod.splits if_splits)

lemma scan_list_error: "scan_list rt cfg str keyed es st = Inl e \<Longrightarrow> e = TypeError"
proof (induction es arbitrary: st)
  case Nil
  then show ?case by simp
next
  case (Cons x xs)
  then show ?case by (auto split: sum.splits dest: examine_error)
qed

lemma scan_list_raises:
  assumes "\<exists>x \<in> set es. \<exists>e. appraise rt cfg str (fst x) = Inl e"
  shows "\<exists>e. scan_list rt cfg str keyed es st = Inl e"
  using assms
proof (induction es arbitrary: st)
  case Nil
  then show ?case by simp
next
  case (Cons x xs)
  show ?case
  proof (cases "examine rt cfg str keyed x st")
    case (Inl e)
    then show ?thesis by simp
  next
    case (Inr st')
    then have "\<not> (\<exists>e. appraise rt cfg str (fst x) = Inl e)"
      by (auto simp: examine_appraise)
    then have "\<exists>y \<in> set xs. \<exists>e. appraise rt cfg str (fst y) = Inl e"
      using Cons.prems by auto
    then show ?thesis using Cons.IH [of st'] Inr by simp
  qed
qed

lemma scan_list_result:
  assumes "\<forall>x \<in> set es. \<forall>e. appraise rt cfg str (fst x) \<noteq> Inl e"
  shows "(scan_list rt cfg str keyed es st = Inr st \<and> unbeaten rt cfg str es st)
       \<or> (\<exists>i c d. best_at rt cfg str es i c d \<and> beats st d
             \<and> scan_list rt cfg str keyed es st =
                 Inr \<lparr>winner = Some (stored cfg keyed (es ! i) c),
                      winningVal = Some (real d)\<rparr>)"
  using assms
proof (induction es rule: rev_induct)
  case Nil
  then show ?case by (simp add: unbeaten_def)
next
  case (snoc x xs)
  have ok: "\<forall>e. appraise rt cfg str (fst x) \<noteq> Inl e"
    and oks: "\<forall>y \<in> set xs. \<forall>e. appraise rt cfg str (fst y) \<noteq> Inl e"
    using snoc.prems by simp_all
  note IH = snoc.IH [OF oks]
  have run: "scan_list rt cfg str keyed (xs @ [x]) st' =
      (case scan_list rt cfg str keyed xs st' of
         Inl e \<Rightarrow> Inl e
       | Inr st'' \<Rightarrow> examine rt cfg str keyed x st'')" for st'
    by (simp add: scan_list_append split: sum.splits)
  have old: "(xs @ [x]) ! k = xs ! k" if "k < length xs" for k
    using that by (simp add: nth_append)
  have new: "(xs @ [x]) ! length xs = x" by simp
  obtain v where v: "appraise rt cfg str (fst x) = Inr v"
    using ok by (cases "appraise rt cfg str (fst x)") auto
  show ?case
  proof (cases v)
    case None
    have last: "examine rt cfg str keyed x st' = Inr st'" for st'
      using v None by (simp add: examine_appraise)
    have same: "scan_list rt cfg str keyed (xs @ [x]) st = scan_list rt cfg str keyed xs st"
      using IH by (auto simp: run last)
    have un: "unbeaten rt cfg str (xs @ [x]) st" if "unbeaten rt cfg str xs st"
      using that v None by (auto simp: unbeaten_def nth_append less_Suc_eq)
    have be: "best_at rt cfg str (xs @ [x]) i c d" if "best_at rt cfg str xs i c d" for i c d
      using that v None by (auto simp: best_at_def nth_append less_Suc_eq)
    show ?thesis
      using IH
    proof
      assume "scan_list rt cfg str keyed xs st = Inr st \<and> unbeaten rt cfg str xs st"
      then show ?thesis using same un by simp
    next
      assume "\<exists>i c d. best_at rt cfg str xs i c d \<and> beats st d
             \<and> scan_list rt cfg str keyed xs st =
                 Inr \<lparr>winner = Some (stored cfg keyed (xs ! i) c),
                      winningVal = Some (real d)\<rparr>"
      then obtain i c d where ic: "best_at rt cfg str xs i c d" "beats st d"
          "scan_list rt cfg str keyed xs st =
             Inr \<lparr>winner = Some (stored cfg keyed (xs ! i) c), winningVal = Some (real d)\<rparr>"
        by blast
      have "i < length xs" using ic(1) by (simp add: best_at_def)
      then have "(xs @ [x]) ! i = xs ! i" by (rule old)
      then have "scan_list rt cfg str keyed (xs @ [x]) st =
          Inr \<lparr>winner = Some (stored cfg keyed ((xs @ [x]) ! i) c),
               winningVal = Some (real d)\<rparr>"
        using ic(3) same by simp
      then show ?thesis using be [OF ic(1)] ic(2) by blast
    qed
  next
    case (Some p)
    obtain cx dx where p: "p = (cx, dx)" by (cases p)
    have ax: "appraise rt cfg str (fst x) = Inr (Some (cx, dx))"
      using v Some p by simp
    have ex: "examine rt cfg str keyed x st' =
        (if beats st' dx
         then Inr \<lparr>winner = Some (stored cfg keyed x cx), winningVal = Some (real dx)\<rparr>
         else Inr st')" for st'
      by (simp add: examine_appraise ax)
    show ?thesis
      using IH
    proof
      assume a: "scan_list rt cfg str keyed xs st = Inr st \<and> unbeaten rt cfg str xs st"
      show ?thesis
      proof (cases "beats st dx")
        case True
        have earlier: "dx < d'"
          if "k < length xs" "appraise rt cfg str (fst (xs ! k)) = Inr (Some (c', d'))"
          for k c' d'
        proof -
          have "\<not> beats st d'" using a that by (auto simp: unbeaten_def)
          then show ?thesis using True by (auto simp: beats_def)
        qed
        have "best_at rt cfg str (xs @ [x]) (length xs) cx dx"
          unfolding best_at_def using ax earlier
          by (auto simp: nth_append less_Suc_eq dest: less_imp_le)
        moreover have "scan_list rt cfg str keyed (xs @ [x]) st =
            Inr \<lparr>winner = Some (stored cfg keyed x cx), winningVal = Some (real dx)\<rparr>"
          using a True by (simp add: run ex)
        ultimately have "best_at rt cfg str (xs @ [x]) (length xs) cx dx \<and> beats st dx
            \<and> scan_list rt cfg str keyed (xs @ [x]) st =
                Inr \<lparr>winner = Some (stored cfg keyed ((xs @ [x]) ! length xs) cx),
                     winningVal = Some (real dx)\<rparr>"
          using True new by simp
        then show ?thesis by blast
      next
        case False
        have "unbeaten rt cfg str (xs @ [x]) st"
          using a False ax by (auto simp: unbeaten_def nth_append less_Suc_eq)
        moreover have "scan_list rt cfg str keyed (xs @ [x]) st = Inr st"
          using a False by (simp add: run ex)
        ultimately show ?thesis by simp
      qed
    next
      assume "\<exists>i c d. best_at rt cfg str xs i c d \<and> beats st d
             \<and> scan_list rt cfg str keyed xs st =
                 Inr \<lparr>winner = Some (stored cfg keyed (xs ! i) c),
                      winningVal = Some (real d)\<rparr>"
      then obtain i c d where ic: "best_at rt cfg str xs i c d" "beats st d"
          "scan_list rt cfg str keyed xs st =
             Inr \<lparr>winner = Some (stored cfg keyed (xs ! i) c), winningVal = Some (real d)\<rparr>"
        by blast
      let ?st1 = "\<lparr>winner = Some (stored cfg keyed (xs ! i) c), winningVal = Some (real d)\<rparr>"
      have i: "i < length xs" using ic(1) by (simp add: best_at_def)
      have b1: "beats ?st1 n = (n < d)" for n
        by (simp add: beats_def)
      show ?thesis
      proof (cases "dx < d")
        case True
        have earlier: "dx < d'"
          if "k < length xs" "appraise rt cfg str (fst (xs ! k)) = Inr (Some (c', d'))"
          for k c' d'
        proof -
          have "d \<le> d'" using ic(1) that by (auto simp: best_at_def)
          then show ?thesis using True by simp
        qed
        have "best_at rt cfg str (xs @ [x]) (length xs) cx dx"
          unfolding best_at_def using ax earlier
          by (auto simp: nth_append less_Suc_eq dest: less_imp_le)
        moreover have "scan_list rt cfg str keyed (xs @ [x]) st =
            Inr \<lparr>winner = Some (stored cfg keyed x cx), winningVal = Some (real dx)\<rparr>"
          using ic(3) True by (simp add: run ex b1)
        moreover have "beats st dx"
          using ic(2) True by (auto simp: beats_def)
        ultimately have "best_at rt cfg str (xs @ [x]) (length xs) cx dx \<and> beats st dx
            \<and> scan_list rt cfg str keyed (xs @ [x]) st =
                Inr \<lparr>winner = Some (stored cfg keyed ((xs @ [x]) ! length xs) cx),
                     winningVal = Some (real dx)\<rparr>"
          using new by simp
        then show ?thesis by blast
      next
        case False
        have "best_at rt cfg str (xs @ [x]) i c d"
          using ic(1) False ax by (auto simp: best_at_def nth_append less_Suc_eq)
        moreover have "scan_list rt cfg str keyed (xs @ [x]) st = Inr ?st1"
          using ic(3) False by (simp add: run ex b1)
        ultimately have "best_at rt cfg str (xs @ [x]) i c d \<and> beats st d
            \<and> scan_list rt cfg str keyed (xs @ [x]) st =
                Inr \<lparr>winner = Some (stored cfg keyed ((xs @ [x]) ! i) c),
                     winningVal = Some (real d)\<rparr>"
          using ic(2) old [OF i] by simp
        then show ?thesis by blast
      qed
    qed
  qed
qed


subsection \<open>The outcome of a match\<close>

lemma didYouMean_scan:
  assumes "str \<noteq> []"
  shows "didYouMean rt cfg (Some str) list =
     (case scan_list rt cfg (folded rt cfg str) (has_key list) (elements rt list)
             (start rt cfg (folded rt cfg str)) of
        Inl e \<Rightarrow> Inl e
      | Inr st \<Rightarrow>
          (case winner st of
             None \<Rightarrow> Inl ReferenceError
           | Some w \<Rightarrow> if returnable w then Inr w else Inl ReferenceError))"
  using assms by (simp add: didYouMean_def folded_def start_def Let_def)

lemma beats_start: "beats (start rt cfg s) d = qualifies rt cfg s d"
  by (simp add: beats_def start_def qualifies_def split: option.splits)

lemma didYouMean_raises:
  assumes "str \<noteq> []"
    and "\<exists>x \<in> set (elements rt list). \<exists>e. appraise rt cfg (folded rt cfg str) (fst x) = Inl e"
  shows "didYouMean rt cfg (Some str) list = Inl TypeError"
proof -
  obtain e where e: "scan_list rt cfg (folded rt cfg str) (has_key list) (elements rt list)
      (start rt cfg (folded rt cfg str)) = Inl e"
    using scan_list_raises [OF assms(2)] by blast
  then have "e = TypeError" by (rule scan_list_error)
  then show ?thesis using e by (simp add: didYouMean_scan [OF assms(1)])
qed

lemma didYouMean_outcome:
  assumes "str \<noteq> []"
    and "\<forall>x \<in> set (elements rt list). \<forall>e. appraise rt cfg (folded rt cfg str) (fst x) \<noteq> Inl e"
  shows "(unbeaten rt cfg (folded rt cfg str) (elements rt list) (start rt cfg (folded rt cfg str))
            \<and> didYouMean rt cfg (Some str) list = Inl ReferenceError)
       \<or> (\<exists>i c d. best_at rt cfg (folded rt cfg str) (elements rt list) i c d
             \<and> qualifies rt cfg (folded rt cfg str) d
             \<and> didYouMean rt cfg (Some str) list =
                 (if returnable (stored cfg (has_key list) (elements rt list ! i) c)
                  then Inr (stored cfg (has_key list) (elements rt list ! i) c)
                  else Inl ReferenceError))"
proof -
  let ?s = "folded rt cfg str" and ?es = "elements rt list"
  from scan_list_result [OF assms(2), of "has_key list" "start rt cfg ?s"]
  show ?thesis
  proof
    assume a: "scan_list rt cfg ?s (has_key list) ?es (start rt cfg ?s) = Inr (start rt cfg ?s)
        \<and> unbeaten rt cfg ?s ?es (start rt cfg ?s)"
    have "winner (start rt cfg ?s) = None" by (simp add: start_def)
    then have "didYouMean rt cfg (Some str) list = Inl ReferenceError"
      using a by (simp add: didYouMean_scan [OF assms(1)])
    then show ?thesis using a by simp
  next
    assume "\<exists>i c d. best_at rt cfg ?s ?es i c d \<and> beats (start rt cfg ?s) d
        \<and> scan_list rt cfg ?s (has_key list) ?es (start rt cfg ?s) =
            Inr \<lparr>winner = Some (stored cfg (has_key list) (?es ! i) c),
                 winningVal = Some (real d)\<rparr>"
    then obtain i c d where ic: "best_at rt cfg ?s ?es i c d" "beats (start rt cfg ?s) d"
        "scan_list rt cfg ?s (has_key list) ?es (start rt cfg ?s) =
            Inr \<lparr>winner = Some (stored cfg (has_key list) (?es ! i) c),
                 winningVal = Some (real d)\<rparr>"
      by blast
    have "didYouMean rt cfg (Some str) list =
        (if returnable (stored cfg (has_key list) (?es ! i) c)
         then Inr (stored cfg (has_key list) (?es ! i) c)
         else Inl ReferenceError)"
      using ic(3) by (simp add: didYouMean_scan [OF assms(1)])
    then show ?thesis using ic(1,2) by (auto simp: beats_start)
  qed
qed

lemma didYouMean_returns:
  assumes "str \<noteq> []" "didYouMean rt cfg (Some str) list = Inr w"
  shows "\<exists>i c d. best_at rt cfg (folded rt cfg str) (elements rt list) i c d
           \<and> qualifies rt cfg (folded rt cfg str) d
           \<and> w = stored cfg (has_key list) (elements rt list ! i) c"
proof (cases "\<exists>x \<in> set (elements rt list).
    \<exists>e. appraise rt cfg (folded rt cfg str) (fst x) = Inl e")
  case True
  then show ?thesis using didYouMean_raises [OF assms(1) True] assms(2) by simp
next
  case False
  then have "\<forall>x \<in> set (elements rt list).
      \<forall>e. appraise rt cfg (folded rt cfg str) (fst x) \<noteq> Inl e" by simp
  from didYouMean_outcome [OF assms(1) this] assms(2)
  show ?thesis by (auto split: if_splits)
qed

lemma longest_input: "length (folded rt cfg str) \<le> longest rt cfg str list"
  by (simp add: longest_def)

lemma longest_candidate:
  assumes "i < length (elements rt list)" "comparand rt cfg (fst (elements rt list ! i)) = Some c"
  shows "length c \<le> longest rt cfg str list"
proof -
  let ?f = "\<lambda>e. case comparand rt cfg (fst e) of None \<Rightarrow> 0 | Some c \<Rightarrow> length c"
  have "elements rt list ! i \<in> set (elements rt list)"
    using assms(1) by (rule nth_mem)
  then have "?f (elements rt list ! i) \<in> set (map ?f (elements rt list))"
    by simp
  then have "?f (elements rt list ! i) \<le> longest rt cfg str list"
    unfolding longest_def by (intro Max_ge) simp_all
  then show ?thesis using assms(2) by simp
qed


lemma skip_element:
  assumes "\<not> truthy (fst e)"
  shows "scan_list rt cfg s keyed (es @ e # es') st = scan_list rt cfg s keyed (es @ es') st"
proof -
  have "examine rt cfg s keyed e st' = Inr st'" for st'
    using assms by (simp add: examine_def Let_def)
  then show ?thesis by (simp add: scan_list_append split: sum.splits)
qed

lemma skip_in_match:
  assumes "elements rt list = es @ e # es'" "elements rt list' = es @ es'"
    "has_key list = has_key list'" "\<not> truthy (fst e)"
  shows "didYouMean rt cfg str list = didYouMean rt cfg str list'"
proof (cases str)
  case None
  then show ?thesis by (simp add: didYouMean_def)
next
  case (Some s)
  show ?thesis
  proof (cases "s = []")
    case True
    then show ?thesis using Some by (simp add: didYouMean_def)
  next
    case False
    show ?thesis
      unfolding Some didYouMean_scan [OF False] assms(1,2,3) skip_element [OF assms(4)] ..
  qed
qed





section \<open>The claims\<close>

text \<open>
  C1. For every non-empty input and every candidate list in which no candidate
  qualifies, the match returns the configured no-match value and never raises an error.

  The code does not: its last line reads the undeclared identifier \<^verbatim>\<open>argument\<close>
  (everywhere else the function says \<^verbatim>\<open>arguments.callee\<close>), so a match without a
  winner ends in a ReferenceError instead of returning \<^verbatim>\<open>nullResultValue\<close>. The
  theorem evaluates the unmatched example of the README under the default options; the
  lemma after it shows the same for every list in which no candidate qualifies.
\<close>

theorem no_match_raises_ReferenceError:
  "didYouMean standard defaults (Some (js ''google plus''))
     (Plain [PStr (js ''resume''), PStr (js ''twitter''), PStr (js ''instagram''),
             PStr (js ''linkedin'')])
   = Inl ReferenceError"
  by code_simp

lemma no_qualifying_candidate_raises:
  assumes "str \<noteq> []"
    and "\<forall>x \<in> set (elements rt list). \<forall>e. appraise rt cfg (folded rt cfg str) (fst x) \<noteq> Inl e"
    and "\<forall>x \<in> set (elements rt list). \<forall>c d.
           appraise rt cfg (folded rt cfg str) (fst x) = Inr (Some (c, d))
           \<longrightarrow> \<not> qualifies rt cfg (folded rt cfg str) d"
  shows "didYouMean rt cfg (Some str) list = Inl ReferenceError"
proof -
  from didYouMean_outcome [OF assms(1,2)]
  show ?thesis
  proof
    assume "unbeaten rt cfg (folded rt cfg str) (elements rt list)
              (start rt cfg (folded rt cfg str))
            \<and> didYouMean rt cfg (Some str) list = Inl ReferenceError"
    then show ?thesis by simp
  next
    assume "\<exists>i c d. best_at rt cfg (folded rt cfg str) (elements rt list) i c d
             \<and> qualifies rt cfg (folded rt cfg str) d
             \<and> didYouMean rt cfg (Some str) list =
                 (if returnable (stored cfg (has_key list) (elements rt list ! i) c)
                  then Inr (stored cfg (has_key list) (elements rt list ! i) c)
                  else Inl ReferenceError)"
    then obtain i c d where b: "best_at rt cfg (folded rt cfg str) (elements rt list) i c d"
        and q: "qualifies rt cfg (folded rt cfg str) d" by blast
    have "elements rt list ! i \<in> set (elements rt list)"
      using b by (intro nth_mem) (simp add: best_at_def)
    moreover have "appraise rt cfg (folded rt cfg str) (fst (elements rt list ! i))
        = Inr (Some (c, d))"
      using b by (simp add: best_at_def)
    ultimately have False using assms(3) q by blast
    then show ?thesis ..
  qed
qed

text \<open>
  C2. For all strings \<open>a\<close> and \<open>b\<close>, \<^verbatim>\<open>getEditDistance(a, b)\<close> returns the Levenshtein
  distance, the least number of single-character insertions, deletions and substitutions
  that turn one into the other; it is computed by the dynamic-programming table whose
  cell \<open>[i][j]\<close> is the distance of the first \<open>i\<close> characters of \<open>b\<close> and the first \<open>j\<close>
  characters of \<open>a\<close> (so \<open>[i][0] = i\<close> and \<open>[0][j] = j\<close>); and if either string is empty
  the result is the length of the other.

  The first conjunct is the returned value, the second says that this many edits do lead
  from \<open>a\<close> to \<open>b\<close> (so the least number exists), the last gives every cell of the table
  the three loops build.
\<close>

theorem getEditDistance_levenshtein:
  "getEditDistance a b = Some (levenshtein a b)
   \<and> (edit1 ^^ levenshtein a b) a b
   \<and> getEditDistance [] b = Some (length b)
   \<and> getEditDistance a [] = Some (length a)
   \<and> distance_table a b =
       Some (map (\<lambda>i. map (\<lambda>j. levenshtein (take i b) (take j a)) [0..<Suc (length a)])
                 [0..<Suc (length b)])"
proof -
  have "(edit1 ^^ levenshtein a b) a b"
    using lev_path [of a b] by (simp add: lev_levenshtein)
  moreover have "getEditDistance [] b = Some (length b)" "getEditDistance a [] = Some (length a)"
    by (simp_all add: getEditDistance_lev)
  moreover have "distance_table a b =
       Some (map (\<lambda>i. map (\<lambda>j. levenshtein (take i b) (take j a)) [0..<Suc (length a)])
                 [0..<Suc (length b)])"
    using distance_table_lev [of a b] by (simp add: lev_levenshtein)
  ultimately show ?thesis by (simp add: getEditDistance_lev lev_levenshtein)
qed

text \<open>
  C3. For every candidate list and every configuration, a match with an empty or absent
  input string returns the boolean \<^verbatim>\<open>false\<close>, not the configurable no-match value.
\<close>

theorem empty_input_returns_false:
  "didYouMean rt cfg None list = Inr (JPrim (PBool False))
   \<and> didYouMean rt cfg (Some []) list = Inr (JPrim (PBool False))"
  by (simp add: didYouMean_def)

text \<open>
  C4. A malformed candidate (a record missing the designated key, or one whose extracted
  value is not a string) is silently skipped: it never wins and never makes the match
  raise.

  As stated this fails: the gatekeeper of line 145 tests falsiness, not the type. The
  call \<^verbatim>\<open>didYouMean('insargrm', [{id: 5}, {id: 'instagram'}], 'id')\<close> ends in a
  TypeError, although the list without the first record matches. (The key \<^verbatim>\<open>id\<close>
  is written as its first code unit 0x69 and the rest.)
\<close>

theorem nonstring_candidate_counterexample:
  "didYouMean standard defaults (Some (js ''insargrm''))
     (Keyed 0x69 (js ''d'') [record_with ''id'' (PNum 5), record_with ''id'' (PStr (js ''instagram''))])
     = Inl TypeError
   \<and> didYouMean standard defaults (Some (js ''insargrm''))
     (Keyed 0x69 (js ''d'') [record_with ''id'' (PStr (js ''instagram''))])
     = Inr (JPrim (PStr (js ''instagram'')))"
  by code_simp

text \<open>
  C4, amended. A candidate whose extracted value is falsy (\<^verbatim>\<open>undefined\<close>, as for a
  record on which the key is found neither as an own nor as an inherited property;
  \<^verbatim>\<open>null\<close>; \<^verbatim>\<open>false\<close>; 0; the empty string) is silently skipped: the match over
  a list that contains it has the outcome of the match over the list without it, so it
  never wins, never makes the match raise, and the scan continues over the remaining
  candidates.
\<close>

theorem falsy_candidate_skipped:
  "(\<not> truthy (Value p) \<longrightarrow>
      didYouMean rt cfg str (Plain (ps @ p # ps')) = didYouMean rt cfg str (Plain (ps @ ps')))
   \<and> (\<not> truthy (get_prop rt r (k # ks)) \<longrightarrow>
      didYouMean rt cfg str (Keyed k ks (rs @ r # rs'))
        = didYouMean rt cfg str (Keyed k ks (rs @ rs')))"
proof (intro conjI impI)
  assume "\<not> truthy (Value p)"
  then show "didYouMean rt cfg str (Plain (ps @ p # ps')) = didYouMean rt cfg str (Plain (ps @ ps'))"
    by (intro skip_in_match [where e = "(Value p, JPrim p)"]) simp_all
next
  assume "\<not> truthy (get_prop rt r (k # ks))"
  then show "didYouMean rt cfg str (Keyed k ks (rs @ r # rs'))
      = didYouMean rt cfg str (Keyed k ks (rs @ rs'))"
    by (intro skip_in_match [where e = "(get_prop rt r (k # ks), JRecord r)"]) simp_all
qed

theorem falsy_candidate_skipped_witness:
  "\<not> truthy (Value PNull)
   \<and> didYouMean standard defaults (Some (js ''insargrm''))
       (Plain ([PStr (js ''resume'')] @ PNull # [PStr (js ''instagram'')]))
     = Inr (JPrim (PStr (js ''instagram'')))
   \<and> \<not> truthy (get_prop standard (record_with ''name'' (PStr (js ''instagram'')))
            (0x69 # js ''d''))
   \<and> didYouMean standard defaults (Some (js ''insargrm''))
       (Keyed 0x69 (js ''d'')
          ([record_with ''id'' (PStr (js ''resume''))]
             @ record_with ''name'' (PStr (js ''instagram''))
               # [record_with ''id'' (PStr (js ''instagram''))]))
     = Inr (JPrim (PStr (js ''instagram'')))"
proof -
  have h1: "\<not> truthy (Value PNull)" by simp
  have h2: "\<not> truthy (get_prop standard (record_with ''name'' (PStr (js ''instagram'')))
      (0x69 # js ''d''))"
    by code_simp
  have r1: "didYouMean standard defaults (Some (js ''insargrm''))
       (Plain ([PStr (js ''resume'')] @ [PStr (js ''instagram'')]))
     = Inr (JPrim (PStr (js ''instagram'')))"
    by code_simp
  have r2: "didYouMean standard defaults (Some (js ''insargrm''))
       (Keyed 0x69 (js ''d'')
          ([record_with ''id'' (PStr (js ''resume''))] @ [record_with ''id'' (PStr (js ''instagram''))]))
     = Inr (JPrim (PStr (js ''instagram'')))"
    by code_simp
  note t = falsy_candidate_skipped [of PNull standard defaults "Some (js ''insargrm'')"
      "[PStr (js ''resume'')]" "[PStr (js ''instagram'')]"
      "record_with ''name'' (PStr (js ''instagram''))" "0x69" "js ''d''"
      "[record_with ''id'' (PStr (js ''resume''))]"
      "[record_with ''id'' (PStr (js ''instagram''))]"]
  show ?thesis using t h1 h2 r1 r2 by simp
qed

text \<open>
  C5. With the threshold set to a number \<open>t\<close>, a candidate is returned as the winner only
  if its edit distance is strictly less than \<open>t\<close> times the length of the input; a
  candidate at a distance of that bound or more is never returned.

  As stated this fails where lower-casing lengthens the input: line 136 multiplies the
  threshold by the length of \<^verbatim>\<open>str\<close> after line 130 has replaced it by its lower
  case. The input of three letters U+0130 becomes six code units, the bound is 2.4 and
  not 1.2, and the candidate of two such letters is returned at distance 2.
\<close>

theorem lowered_length_counterexample:
  "didYouMean standard defaults (Some [0x130, 0x130, 0x130]) (Plain [PStr [0x130, 0x130]])
     = Inr (JPrim (PStr [0x69, 0x307, 0x69, 0x307]))
   \<and> getEditDistance (lower standard [0x130, 0x130, 0x130]) [0x69, 0x307, 0x69, 0x307 :: 16 word]
     = Some 2
   \<and> \<not> ((2 :: real) < 0.4 * real (length [0x130, 0x130, 0x130 :: 16 word]))"
proof -
  have "didYouMean standard defaults (Some [0x130, 0x130, 0x130]) (Plain [PStr [0x130, 0x130]])
     = Inr (JPrim (PStr [0x69, 0x307, 0x69, 0x307]))"
    by code_simp
  moreover have "getEditDistance (lower standard [0x130, 0x130, 0x130])
      [0x69, 0x307, 0x69, 0x307 :: 16 word] = Some 2"
    by code_simp
  ultimately show ?thesis by simp
qed

text \<open>
  C5, amended. With the threshold set to a number \<open>t\<close>, a candidate is returned as the
  winner only if its computed edit distance is strictly less than \<open>t\<close> times the length
  of the input as it is compared, which is the lower-cased input in a case-insensitive
  search; a candidate at a distance of that bound or more is never returned.

  The bound the program compares with is the double nearest to the product. Rounding is
  monotone and leaves the integers up to \<open>2 ^ 53\<close> unchanged, and no distance exceeds the
  length of the longer of the two strings; with these assumptions the distance is below
  the exact product as well. The returned value \<open>w\<close> is the one stored for an element
  \<open>i\<close> of the list whose distance \<open>d\<close>, the value of \<^verbatim>\<open>val\<close> on line 149, is below the
  bound.
\<close>

theorem winner_below_threshold:
  assumes "threshold cfg = Some t" "str \<noteq> []"
    and mono: "\<And>x y. x \<le> y \<Longrightarrow> rnd rt x \<le> rnd rt y"
    and ident: "\<And>n :: nat. n \<le> 2 ^ 53 \<Longrightarrow> rnd rt (real n) = real n"
    and short: "longest rt cfg str list \<le> 2 ^ 53"
    and res: "didYouMean rt cfg (Some str) list = Inr w"
  shows "\<exists>i c d. i < length (elements rt list)
           \<and> appraise rt cfg (folded rt cfg str) (fst (elements rt list ! i)) = Inr (Some (c, d))
           \<and> w = stored cfg (has_key list) (elements rt list ! i) c
           \<and> real d < t * real (length (folded rt cfg str))"
proof -
  let ?s = "folded rt cfg str" and ?es = "elements rt list"
  obtain i c d where ic: "best_at rt cfg ?s ?es i c d" "qualifies rt cfg ?s d"
      "w = stored cfg (has_key list) (?es ! i) c"
    using didYouMean_returns [OF assms(2) res] by blast
  have i: "i < length ?es" and a: "appraise rt cfg ?s (fst (?es ! i)) = Inr (Some (c, d))"
    using ic(1) by (simp_all add: best_at_def)
  have len: "length ?s \<le> 2 ^ 53"
    using short longest_input [of rt cfg str list] by simp
  have d: "d \<le> 2 ^ 53"
    using appraise_distance [OF a]
  proof
    assume "\<exists>c'. comparand rt cfg (fst (?es ! i)) = Some c' \<and> d = lev ?s c'"
    then obtain c' where c': "comparand rt cfg (fst (?es ! i)) = Some c'" "d = lev ?s c'"
      by blast
    have "length c' \<le> 2 ^ 53"
      using short longest_candidate [OF i c'(1), of str] by simp
    then show ?thesis using lev_le_max [of ?s c'] len c'(2) by simp
  next
    assume "caseSensitive cfg \<and> (?s \<noteq> [] \<longrightarrow> d = length ?s)"
    then have "d = length ?s" using assms(2) by (simp add: folded_def)
    then show ?thesis using len by simp
  qed
  have below: "real d < rnd rt (t * real (length ?s))"
    using ic(2) assms(1) by (simp add: qualifies_def)
  have "real d < t * real (length ?s)"
  proof (rule ccontr)
    assume "\<not> real d < t * real (length ?s)"
    then have "rnd rt (t * real (length ?s)) \<le> rnd rt (real d)" by (intro mono) simp
    then show False using below ident [OF d] by simp
  qed
  then show ?thesis using i a ic(3) by blast
qed

theorem winner_below_threshold_witness:
  "threshold defaults = Some 0.4 \<and> js ''insargrm'' \<noteq> []
   \<and> longest standard defaults (js ''insargrm'')
        (Plain [PStr (js ''resume''), PStr (js ''instagram'')]) = 9
   \<and> didYouMean standard defaults (Some (js ''insargrm''))
        (Plain [PStr (js ''resume''), PStr (js ''instagram'')])
      = Inr (JPrim (PStr (js ''instagram'')))
   \<and> (\<exists>i c d. i < length (elements standard (Plain [PStr (js ''resume''), PStr (js ''instagram'')]))
         \<and> appraise standard defaults (folded standard defaults (js ''insargrm''))
              (fst (elements standard (Plain [PStr (js ''resume''), PStr (js ''instagram'')]) ! i))
            = Inr (Some (c, d))
         \<and> JPrim (PStr (js ''instagram''))
            = stored defaults (has_key (Plain [PStr (js ''resume''), PStr (js ''instagram'')]))
                (elements standard (Plain [PStr (js ''resume''), PStr (js ''instagram'')]) ! i) c
         \<and> real d < 0.4 * real (length (folded standard defaults (js ''insargrm''))))"
proof -
  let ?list = "Plain [PStr (js ''resume''), PStr (js ''instagram'')]"
  have h1: "threshold defaults = Some 0.4" by (simp add: defaults_def)
  have h2: "js ''insargrm'' \<noteq> []" by (simp add: js_def)
  have l: "longest standard defaults (js ''insargrm'') ?list = 9" by code_simp
  have h3: "longest standard defaults (js ''insargrm'') ?list \<le> 2 ^ 53"
    unfolding l by simp
  have h4: "didYouMean standard defaults (Some (js ''insargrm'')) ?list
      = Inr (JPrim (PStr (js ''instagram'')))"
    by code_simp
  have m: "\<And>x y :: real. x \<le> y \<Longrightarrow> rnd standard x \<le> rnd standard y"
    by (simp add: standard_def)
  have e: "\<And>n :: nat. n \<le> 2 ^ 53 \<Longrightarrow> rnd standard (real n) = real n"
    by (simp add: standard_def)
  show ?thesis
    using winner_below_threshold [OF h1 h2 m e h3 h4] h1 h2 l h4 by simp
qed







text \<open>
  C8. For all strings \<open>a\<close> and \<open>b\<close>, \<^verbatim>\<open>getEditDistance(a, b)\<close> equals
  \<^verbatim>\<open>getEditDistance(b, a)\<close>, although the table has \<open>b\<close> along its rows and \<open>a\<close> along
  its columns.
\<close>

theorem getEditDistance_symmetric: "getEditDistance a b = getEditDistance b a"
  by (simp add: getEditDistance_lev lev_sym [of a b])

text \<open>
  C9. For all strings \<open>a\<close>, \<open>b\<close> and \<open>c\<close>, \<^verbatim>\<open>getEditDistance(a, c)\<close> is at most
  \<^verbatim>\<open>getEditDistance(a, b)\<close> plus \<^verbatim>\<open>getEditDistance(b, c)\<close>; all three are defined.
\<close>

theorem getEditDistance_triangle:
  "\<exists>x y z. getEditDistance a b = Some x \<and> getEditDistance b c = Some y
     \<and> getEditDistance a c = Some z \<and> z \<le> x + y"
  by (simp add: getEditDistance_lev lev_triangle)

text \<open>
  C10. In a case-insensitive search whose result is a string and not a record, the match
  returns the lower-cased form of the winning candidate, not its text as it stands in the
  list.

  Whatever value \<open>w\<close> the match returns is \<^verbatim>\<open>toLowerCase\<close> of the string extracted from
  some element of the list; the instance after the theorem returns \<^verbatim>\<open>instagram\<close> for
  the list element \<^verbatim>\<open>InstaGram\<close>.
\<close>

theorem string_winner_is_lower_cased:
  assumes "\<not> caseSensitive cfg" "\<not> (has_key list \<and> returnWinningObject cfg)" "str \<noteq> []"
    and res: "didYouMean rt cfg (Some str) list = Inr w"
  shows "\<exists>i c. i < length (elements rt list) \<and> fst (elements rt list ! i) = Value (PStr c)
           \<and> w = JPrim (PStr (lower rt c))"
proof -
  obtain i c' d where ic: "best_at rt cfg (folded rt cfg str) (elements rt list) i c' d"
      "w = stored cfg (has_key list) (elements rt list ! i) c'"
    using didYouMean_returns [OF assms(3) res] by blast
  have i: "i < length (elements rt list)"
    and a: "appraise rt cfg (folded rt cfg str) (fst (elements rt list ! i)) = Inr (Some (c', d))"
    using ic(1) by (simp_all add: best_at_def)
  obtain c where c: "fst (elements rt list ! i) = Value (PStr c)" "c' = Value (PStr (lower rt c))"
    using appraise_insensitive [OF assms(1) a] by blast
  have "w = JPrim (PStr (lower rt c))"
    using ic(2) c(2) assms(2) by (auto simp: stored_def)
  then show ?thesis using i c(1) by blast
qed

theorem string_winner_is_lower_cased_witness:
  "\<not> caseSensitive defaults
   \<and> \<not> (has_key (Plain [PStr (js ''InstaGram'')]) \<and> returnWinningObject defaults)
   \<and> js ''instagram'' \<noteq> []
   \<and> didYouMean standard defaults (Some (js ''instagram'')) (Plain [PStr (js ''InstaGram'')])
       = Inr (JPrim (PStr (js ''instagram'')))
   \<and> (\<exists>i c. i < length (elements standard (Plain [PStr (js ''InstaGram'')]))
         \<and> fst (elements standard (Plain [PStr (js ''InstaGram'')]) ! i) = Value (PStr c)
         \<and> JPrim (PStr (js ''instagram'')) = JPrim (PStr (lower standard c)))"
proof -
  have h1: "\<not> caseSensitive defaults" by (simp add: defaults_def)
  have h2: "\<not> (has_key (Plain [PStr (js ''InstaGram'')]) \<and> returnWinningObject defaults)"
    by simp
  have h3: "js ''instagram'' \<noteq> []" by (simp add: js_def)
  have h4: "didYouMean standard defaults (Some (js ''instagram''))
      (Plain [PStr (js ''InstaGram'')]) = Inr (JPrim (PStr (js ''instagram'')))"
    by code_simp
  show ?thesis
    using string_winner_is_lower_cased [OF h1 h2 h3 h4] h1 h2 h3 h4 by simp
qed

end
